theory Spec2Isabelle
  imports Main "HOL-Library.Word" "HOL-Library.Monad_Syntax"
begin

unbundle bit_operations_syntax

section \<open>Data model of \<^verbatim>\<open>main.c\<close>\<close>

text \<open>
  Addresses are byte addresses. A pointer is an optional address, \<open>None\<close> being
  \<^verbatim>\<open>NULL\<close>. The arena is seen through the chunk headers it holds: the memory maps the
  address of a header to its three fields, and the payload bytes between the headers are
  not represented. Reading a header at an address that holds none is undefined behaviour
  in C and has no result here. The header of an absorbed chunk stays in the map although
  its bytes lie in a payload, where a later split may write over them; the map follows
  the arena for the headers of the chain only, so the properties below take the pointers
  given to \<^verbatim>\<open>heap_free\<close> from the chunks of the chain.
\<close>

type_synonym addr = nat

record heapchunk_t =
  size_c :: "32 word"
  inuse :: bool
  next_c :: "addr option"

record heapinfo_t =
  start :: "addr option"
  avail :: "32 word"

type_synonym memory = "addr \<Rightarrow> heapchunk_t option"

text \<open>
  \<^verbatim>\<open>sizeof(struct heapchunk_t)\<close> on an LP64 target: four bytes of size, one byte of
  flag, three bytes of padding and an eight-byte pointer. There \<^verbatim>\<open>size_t\<close> has 64 bits,
  so a sum of a \<^verbatim>\<open>uint32_t\<close>, the header width and the alignment never wraps.
\<close>

definition hdr :: nat where
  "hdr = 16"

definition ALIGNMENT :: nat where
  "ALIGNMENT = 8"

text \<open>\<^verbatim>\<open>#define ALIGN(size) (((size) + (ALIGNMENT - 1)) & ~(ALIGNMENT - 1))\<close>, on
  \<^verbatim>\<open>uint32_t\<close>: the addition wraps modulo \<open>2 ^ 32\<close>.\<close>

definition ALIGN :: "32 word \<Rightarrow> 32 word" where
  "ALIGN sz = (sz + 7) AND NOT 7"

section \<open>The operations\<close>

subsection \<open>\<^verbatim>\<open>heap_alloc\<close>\<close>

text \<open>The body of the \<^verbatim>\<open>if\<close> of \<^verbatim>\<open>heap_alloc\<close>: the chunk \<open>c\<close> at address \<open>a\<close> is
  marked in use and, when large enough, split.\<close>

definition take_chunk :: "memory \<Rightarrow> addr \<Rightarrow> heapchunk_t \<Rightarrow> 32 word \<Rightarrow> memory" where
  "take_chunk m a c sz =
     (if unat sz + hdr + ALIGNMENT \<le> unat (size_c c)
      then m(a + hdr + unat sz \<mapsto>
               \<lparr>size_c = size_c c - sz - word_of_nat hdr, inuse = False, next_c = next_c c\<rparr>,
             a \<mapsto> \<lparr>size_c = sz, inuse = True, next_c = Some (a + hdr + unat sz)\<rparr>)
      else m(a \<mapsto> c\<lparr>inuse := True\<rparr>))"

text \<open>The \<^verbatim>\<open>while\<close> loop of \<^verbatim>\<open>heap_alloc\<close>. No result when the walk reads a header the
  memory does not hold, or never ends.\<close>

partial_function (option) alloc_walk ::
  "memory \<Rightarrow> 32 word \<Rightarrow> addr option \<Rightarrow> (memory \<times> addr option) option" where
  "alloc_walk m sz chunk =
     (case chunk of
        None \<Rightarrow> Some (m, None)
      | Some a \<Rightarrow>
          (case m a of
             None \<Rightarrow> None
           | Some c \<Rightarrow>
               if \<not> inuse c \<and> sz \<le> size_c c
               then Some (take_chunk m a c sz, Some (a + hdr))
               else alloc_walk m sz (next_c c)))"

definition heap_alloc ::
  "heapinfo_t \<Rightarrow> memory \<Rightarrow> 32 word \<Rightarrow> (heapinfo_t \<times> memory \<times> addr option) option" where
  "heap_alloc heap m sz =
     (case alloc_walk m (ALIGN sz) (start heap) of
        None \<Rightarrow> None
      | Some (m', p) \<Rightarrow> Some (heap, m', p))"

subsection \<open>\<^verbatim>\<open>heap_free\<close>\<close>

text \<open>The first loop of \<^verbatim>\<open>heap_free\<close>. After a merge \<^verbatim>\<open>current\<close> moves to the link
  just written, the chunk after the absorbed one.\<close>

partial_function (option) coalesce :: "memory \<Rightarrow> addr option \<Rightarrow> memory option" where
  "coalesce m current =
     (case current of
        None \<Rightarrow> Some m
      | Some a \<Rightarrow>
          (case m a of
             None \<Rightarrow> None
           | Some c \<Rightarrow>
               if inuse c then coalesce m (next_c c)
               else
                 (case next_c c of
                    None \<Rightarrow> Some m
                  | Some b \<Rightarrow>
                      (case m b of
                         None \<Rightarrow> None
                       | Some d \<Rightarrow>
                           if inuse d then coalesce m (next_c c)
                           else coalesce
                                  (m(a \<mapsto> c\<lparr>size_c := size_c c + (word_of_nat hdr + size_c d),
                                             next_c := next_c d\<rparr>))
                                  (next_c d)))))"

text \<open>The second loop of \<^verbatim>\<open>heap_free\<close>, with the running value of \<^verbatim>\<open>heap->avail\<close>.\<close>

partial_function (option) sum_avail :: "memory \<Rightarrow> addr option \<Rightarrow> 32 word \<Rightarrow> 32 word option" where
  "sum_avail m current acc =
     (case current of
        None \<Rightarrow> Some acc
      | Some a \<Rightarrow>
          (case m a of
             None \<Rightarrow> None
           | Some c \<Rightarrow> sum_avail m (next_c c) (if inuse c then acc else acc + size_c c)))"

definition heap_free ::
  "heapinfo_t \<Rightarrow> memory \<Rightarrow> addr option \<Rightarrow> (heapinfo_t \<times> memory) option" where
  "heap_free heap m ptr =
     (case ptr of
        None \<Rightarrow> Some (heap, m)
      | Some p \<Rightarrow>
          if p < hdr then None
          else
            (case m (p - hdr) of
               None \<Rightarrow> None
             | Some c \<Rightarrow>
                 (case coalesce (m(p - hdr \<mapsto> c\<lparr>inuse := False\<rparr>)) (start heap) of
                    None \<Rightarrow> None
                  | Some m' \<Rightarrow>
                      (case sum_avail m' (start heap) 0 of
                         None \<Rightarrow> None
                       | Some s \<Rightarrow> Some (heap\<lparr>avail := s\<rparr>, m')))))"

subsection \<open>\<^verbatim>\<open>heap_init\<close>, \<^verbatim>\<open>heap_sizeof\<close>, \<^verbatim>\<open>heap_info\<close>\<close>

definition heap_init ::
  "heapinfo_t \<Rightarrow> memory \<Rightarrow> addr option \<Rightarrow> 32 word \<Rightarrow> (heapinfo_t \<times> memory) option" where
  "heap_init heap m start_ptr sz =
     (case start_ptr of
        None \<Rightarrow> None
      | Some a \<Rightarrow>
          Some (heap\<lparr>start := Some a, avail := sz - word_of_nat hdr\<rparr>,
                m(a \<mapsto> \<lparr>size_c = sz - word_of_nat hdr, inuse = False, next_c = None\<rparr>)))"

definition heap_sizeof :: "memory \<Rightarrow> addr option \<Rightarrow> 32 word option" where
  "heap_sizeof m ptr =
     (case ptr of
        None \<Rightarrow> Some 0
      | Some p \<Rightarrow>
          if p < hdr then None
          else (case m (p - hdr) of None \<Rightarrow> None | Some c \<Rightarrow> Some (size_c c)))"

text \<open>The loop of \<^verbatim>\<open>heap_info\<close>: the chunks of the chain in order, each with its
  address, as the text it prints lists them.\<close>

partial_function (option) chunks :: "memory \<Rightarrow> addr option \<Rightarrow> (addr \<times> heapchunk_t) list option" where
  "chunks m chunk =
     (case chunk of
        None \<Rightarrow> Some []
      | Some a \<Rightarrow>
          (case m a of
             None \<Rightarrow> None
           | Some c \<Rightarrow> Option.bind (chunks m (next_c c)) (\<lambda>cs. Some ((a, c) # cs))))"

definition heap_info :: "heapinfo_t \<Rightarrow> memory \<Rightarrow> (32 word \<times> (addr \<times> 32 word \<times> bool) list) option" where
  "heap_info heap m =
     (case chunks m (start heap) of
        None \<Rightarrow> None
      | Some cs \<Rightarrow> Some (avail heap, map (\<lambda>(a, c). (a, size_c c, inuse c)) cs))"

declare alloc_walk.simps [code] coalesce.simps [code] sum_avail.simps [code] chunks.simps [code]

subsection \<open>The driver\<close>

text \<open>The calls of \<^verbatim>\<open>main\<close> up to its first \<^verbatim>\<open>printf\<close>: an arena of 4096 bytes, here
  mapped at address \<open>base\<close>, and three blocks of 128, 256 and 512 bytes.\<close>

definition demo_allocs ::
  "addr \<Rightarrow> (heapinfo_t \<times> memory \<times> addr option \<times> addr option \<times> addr option) option" where
  "demo_allocs base =
     do {
       (heap, m) \<leftarrow> heap_init \<lparr>start = None, avail = 0\<rparr> (\<lambda>_. None) (Some base) 4096;
       (heap, m, ptr1) \<leftarrow> heap_alloc heap m 128;
       (heap, m, ptr2) \<leftarrow> heap_alloc heap m 256;
       (heap, m, ptr3) \<leftarrow> heap_alloc heap m 512;
       Some (heap, m, ptr1, ptr2, ptr3)
     }"

section \<open>Chains of chunks\<close>

text \<open>\<open>path m p cs q\<close>: following the links from \<open>p\<close> visits exactly the headers \<open>cs\<close>,
  as the memory holds them, and arrives at \<open>q\<close>.\<close>

fun path :: "memory \<Rightarrow> addr option \<Rightarrow> (addr \<times> heapchunk_t) list \<Rightarrow> addr option \<Rightarrow> bool" where
  "path m p [] q = (p = q)"
| "path m p (x # xs) q =
     (p = Some (fst x) \<and> m (fst x) = Some (snd x) \<and> path m (next_c (snd x)) xs q)"

text \<open>The first byte after the header and the payload of a chunk.\<close>

definition chunk_end :: "addr \<times> heapchunk_t \<Rightarrow> addr" where
  "chunk_end x = fst x + hdr + unat (size_c (snd x))"

text \<open>Each chunk but the last is followed, in the chain, by the chunk that starts at its end.\<close>

fun tiled :: "(addr \<times> heapchunk_t) list \<Rightarrow> bool" where
  "tiled [] = True"
| "tiled [x] = True"
| "tiled (x # y # zs) = (fst y = chunk_end x \<and> tiled (y # zs))"

text \<open>The bytes a chain covers, headers and payloads.\<close>

definition span :: "(addr \<times> heapchunk_t) list \<Rightarrow> nat" where
  "span cs = (\<Sum>x\<leftarrow>cs. hdr + unat (size_c (snd x)))"

text \<open>The tiling invariant of a heap: the chain from \<^verbatim>\<open>heap->start\<close> ends, and it is tiled.\<close>

definition tiling :: "heapinfo_t \<Rightarrow> memory \<Rightarrow> bool" where
  "tiling heap m = (case chunks m (start heap) of None \<Rightarrow> False | Some cs \<Rightarrow> tiled cs)"

text \<open>The invariant the operations keep: tiling, and a chain that covers no more than
  a \<^verbatim>\<open>uint32_t\<close> length and the wrapped payload size of \<^verbatim>\<open>heap_init\<close> can describe.\<close>

definition heap_inv :: "heapinfo_t \<Rightarrow> memory \<Rightarrow> bool" where
  "heap_inv heap m =
     (case chunks m (start heap) of
        None \<Rightarrow> False
      | Some cs \<Rightarrow> tiled cs \<and> span cs < 2 ^ 32 + hdr)"

text \<open>A pointer to the payload of a chunk of the chain: one header width above the
  address of a header that the walk from \<^verbatim>\<open>heap->start\<close> visits.\<close>

definition chunk_ptr :: "heapinfo_t \<Rightarrow> memory \<Rightarrow> addr \<Rightarrow> bool" where
  "chunk_ptr heap m p =
     (hdr \<le> p \<and>
      (case chunks m (start heap) of
         None \<Rightarrow> False
       | Some cs \<Rightarrow> p - hdr \<in> set (map fst cs)))"

text \<open>The heaps that calls of the three operations produce, from an arena that holds at
  least one header, with \<^verbatim>\<open>heap_free\<close> given \<^verbatim>\<open>NULL\<close> or a pointer to a chunk of the chain.\<close>

inductive reachable :: "heapinfo_t \<Rightarrow> memory \<Rightarrow> bool" where
  init: "hdr \<le> unat sz \<Longrightarrow> heap_init heap0 m0 p sz = Some (heap, m) \<Longrightarrow> reachable heap m"
| alloc: "reachable heap m \<Longrightarrow> heap_alloc heap m sz = Some (heap', m', p) \<Longrightarrow> reachable heap' m'"
| free: "reachable heap m \<Longrightarrow> (case ptr of None \<Rightarrow> True | Some p \<Rightarrow> chunk_ptr heap m p)
         \<Longrightarrow> heap_free heap m ptr = Some (heap', m') \<Longrightarrow> reachable heap' m'"

text \<open>The test of the \<^verbatim>\<open>if\<close> in \<^verbatim>\<open>heap_alloc\<close>.\<close>

definition fits :: "32 word \<Rightarrow> addr \<times> heapchunk_t \<Rightarrow> bool" where
  "fits sz x = (\<not> inuse (snd x) \<and> sz \<le> size_c (snd x))"

text \<open>What the first loop of \<^verbatim>\<open>heap_free\<close> does to the chain, read as a list.\<close>

fun coalesce_list :: "(addr \<times> heapchunk_t) list \<Rightarrow> (addr \<times> heapchunk_t) list" where
  "coalesce_list [] = []"
| "coalesce_list [x] = [x]"
| "coalesce_list (x # y # zs) =
     (if \<not> inuse (snd x) \<and> \<not> inuse (snd y)
      then (fst x, (snd x)\<lparr>size_c := size_c (snd x) + (word_of_nat hdr + size_c (snd y)),
                            next_c := next_c (snd y)\<rparr>) # coalesce_list zs
      else x # coalesce_list (y # zs))"

text \<open>The payload bytes of the free chunks of a chain.\<close>

definition free_total :: "(addr \<times> heapchunk_t) list \<Rightarrow> nat" where
  "free_total cs = (\<Sum>x\<leftarrow>filter (\<lambda>x. \<not> inuse (snd x)) cs. unat (size_c (snd x)))"

text \<open>Two neighbours of a chain that are both free.\<close>

fun adjacent_free :: "(addr \<times> heapchunk_t) list \<Rightarrow> bool" where
  "adjacent_free (x # y # zs) = ((\<not> inuse (snd x) \<and> \<not> inuse (snd y)) \<or> adjacent_free (y # zs))"
| "adjacent_free _ = False"

text \<open>What \<^verbatim>\<open>chunk->inuse = false\<close> at the header address \<open>b\<close> does to a chunk of the chain.\<close>

definition mark_free :: "addr \<Rightarrow> addr \<times> heapchunk_t \<Rightarrow> addr \<times> heapchunk_t" where
  "mark_free b x = (if fst x = b then (fst x, (snd x)\<lparr>inuse := False\<rparr>) else x)"

section \<open>Chains and the memory\<close>

lemma chunks_path: "chunks m p = Some cs \<longleftrightarrow> path m p cs None"
proof (induction cs arbitrary: p)
  case Nil
  show ?case
    by (subst chunks.simps) (auto split: option.splits simp: bind_eq_Some_conv)
next
  case (Cons x xs)
  show ?case
    by (subst chunks.simps) (auto split: option.splits simp: bind_eq_Some_conv Cons.IH)
qed

lemma path_append: "path m p (xs @ ys) q \<longleftrightarrow> (\<exists>r. path m p xs r \<and> path m r ys q)"
  by (induction xs arbitrary: p) auto

lemma path_cong: "(\<And>x. x \<in> set cs \<Longrightarrow> m' (fst x) = m (fst x)) \<Longrightarrow> path m' p cs q = path m p cs q"
  by (induction cs arbitrary: p) auto

lemma chunk_end_gt: "fst x + hdr \<le> chunk_end x"
  by (simp add: chunk_end_def)

lemma tiled_Cons: "tiled (x # xs) \<longleftrightarrow> (xs = [] \<or> fst (hd xs) = chunk_end x) \<and> tiled xs"
  by (cases xs) auto

lemma tiled_append:
  "tiled (xs @ ys) \<longleftrightarrow> tiled xs \<and> tiled ys \<and> (xs = [] \<or> ys = [] \<or> fst (hd ys) = chunk_end (last xs))"
  by (induction xs rule: tiled.induct) (auto simp: tiled_Cons)

lemma tiled_later: "tiled (x # xs) \<Longrightarrow> y \<in> set xs \<Longrightarrow> chunk_end x \<le> fst y"
proof (induction xs arbitrary: x)
  case Nil
  then show ?case by simp
next
  case (Cons z zs)
  from Cons.prems have z: "fst z = chunk_end x" and t: "tiled (z # zs)" by auto
  show ?case
  proof (cases "y = z")
    case True
    with z show ?thesis by simp
  next
    case False
    with Cons.prems have "y \<in> set zs" by auto
    from Cons.IH [OF t this] z chunk_end_gt [of z] show ?thesis by simp
  qed
qed

lemma tiled_earlier: "tiled (xs @ y # ys) \<Longrightarrow> x \<in> set xs \<Longrightarrow> chunk_end x \<le> fst y"
proof (induction xs)
  case Nil
  then show ?case by simp
next
  case (Cons z zs)
  show ?case
  proof (cases "x = z")
    case True
    with Cons.prems(1) tiled_later [of z "zs @ y # ys" y] show ?thesis by simp
  next
    case False
    with Cons.prems have "x \<in> set zs" "tiled (zs @ y # ys)" by (auto simp: tiled_Cons)
    with Cons.IH show ?thesis by simp
  qed
qed

lemma hdr_pos: "0 < hdr"
  by (simp add: hdr_def)

lemma alloc_walk_fit:
  "path m p pre (Some a) \<Longrightarrow> m a = Some c \<Longrightarrow> \<forall>x\<in>set pre. \<not> fits sz x \<Longrightarrow> fits sz (a, c)
   \<Longrightarrow> alloc_walk m sz p = Some (take_chunk m a c sz, Some (a + hdr))"
proof (induction pre arbitrary: p)
  case Nil
  then show ?case
    by (subst alloc_walk.simps) (simp add: fits_def)
next
  case (Cons x xs)
  from Cons.prems have "alloc_walk m sz (next_c (snd x)) = Some (take_chunk m a c sz, Some (a + hdr))"
    by (intro Cons.IH) auto
  with Cons.prems show ?case
    by (subst alloc_walk.simps) (auto simp: fits_def)
qed

lemma alloc_walk_nofit:
  "path m p cs None \<Longrightarrow> \<forall>x\<in>set cs. \<not> fits sz x \<Longrightarrow> alloc_walk m sz p = Some (m, None)"
proof (induction cs arbitrary: p)
  case Nil
  then show ?case
    by (subst alloc_walk.simps) simp
next
  case (Cons x xs)
  from Cons.prems have "alloc_walk m sz (next_c (snd x)) = Some (m, None)"
    by (intro Cons.IH) auto
  with Cons.prems show ?case
    by (subst alloc_walk.simps) (auto simp: fits_def)
qed

lemma alloc_walk_result:
  assumes "alloc_walk m sz p = Some y"
  shows "(snd y = None \<and> fst y = m) \<or>
     (\<exists>a c. snd y = Some (a + hdr) \<and> m a = Some c \<and> fits sz (a, c) \<and> fst y = take_chunk m a c sz)"
  by (rule alloc_walk.raw_induct [OF _ assms])
     (auto split: option.splits if_splits simp: fits_def)

section \<open>Sizes\<close>

lemma and_not_7: "(x :: 32 word) AND NOT 7 = x - x mod 8"
proof -
  have 7: "(7 :: 32 word) = mask 3" by (simp add: mask_eq_exp_minus_1)
  have "x AND NOT (mask 3) = push_bit 3 (drop_bit 3 x)"
    by (rule bit_eqI) (auto simp add: bit_simps)
  moreover have "push_bit 3 (drop_bit 3 x) + take_bit 3 x = x" by (rule bits_ident)
  moreover have "take_bit 3 x = x mod 8" by (simp add: take_bit_eq_mod)
  ultimately show ?thesis by (simp add: 7 algebra_simps)
qed

lemma unat_and_not_7: "unat ((x :: 32 word) AND NOT 7) = unat x - unat x mod 8"
proof -
  have "x mod 8 \<le> x" by (simp add: word_le_nat_alt unat_mod)
  then have "unat (x - x mod 8) = unat x - unat (x mod 8)" by (rule unat_sub)
  then show ?thesis unfolding and_not_7 by (simp add: unat_mod)
qed

lemma ALIGN_unat:
  assumes "unat sz + 7 < 2 ^ 32"
  shows "unat (ALIGN sz) = (unat sz + 7) - (unat sz + 7) mod 8"
proof -
  have "unat (7 :: 32 word) = 7" by simp
  with assms have "unat sz + unat (7 :: 32 word) < 2 ^ LENGTH(32)" by simp
  then have "unat (sz + 7) = unat sz + 7" by (simp add: unat_add_lem [THEN iffD1])
  then show ?thesis unfolding ALIGN_def unat_and_not_7 by simp
qed

lemma ALIGN_wrap:
  assumes "2 ^ 32 - 8 < unat sz"
  shows "ALIGN sz = 0"
proof -
  have "unat sz < 2 ^ 32" using unsigned_less [of sz] by simp
  have "unat (sz + 7) = (unat sz + 7) mod 2 ^ 32" by (simp add: unat_word_ariths)
  also have "\<dots> = unat sz + 7 - 2 ^ 32"
    using assms \<open>unat sz < 2 ^ 32\<close> by (simp add: mod_if)
  finally have "unat (sz + 7) < 8" using \<open>unat sz < 2 ^ 32\<close> by simp
  then have "unat (ALIGN sz) = 0" unfolding ALIGN_def unat_and_not_7 by simp
  then show ?thesis by (simp add: unat_eq_0)
qed

lemma ALIGN_ge: "unat sz + 7 < 2 ^ 32 \<Longrightarrow> sz \<le> ALIGN sz"
  using ALIGN_unat [of sz] unfolding word_le_nat_alt by presburger

lemma word_hdr: "(word_of_nat hdr :: 32 word) = 16" by (simp add: hdr_def)

lemma split_size:
  assumes "unat sz + hdr + ALIGNMENT \<le> unat (s :: 32 word)"
  shows "unat (s - sz - word_of_nat hdr) = unat s - unat sz - hdr"
proof -
  from assms have 1: "sz \<le> s" by (simp add: word_le_nat_alt)
  then have 2: "unat (s - sz) = unat s - unat sz" by (rule unat_sub)
  have 3: "unat (16 :: 32 word) = 16" by simp
  from assms 2 have "(16 :: 32 word) \<le> s - sz" by (simp add: word_le_nat_alt hdr_def)
  then have "unat (s - sz - 16) = unat (s - sz) - unat (16 :: 32 word)" by (rule unat_sub)
  with 2 show ?thesis by (simp add: hdr_def)
qed

lemma merge_size:
  assumes "unat (s :: 32 word) + hdr + unat (t :: 32 word) < 2 ^ 32"
  shows "unat (s + (word_of_nat hdr + t)) = unat s + hdr + unat t"
proof -
  have 3: "unat (16 :: 32 word) = 16" by simp
  from assms have "unat (16 :: 32 word) + unat t < 2 ^ LENGTH(32)" by (simp add: hdr_def)
  then have 1: "unat (16 + t) = 16 + unat t" using 3 by (simp add: unat_add_lem [THEN iffD1])
  from assms 1 have "unat s + unat (16 + t) < 2 ^ LENGTH(32)" by (simp add: hdr_def)
  then have "unat (s + (16 + t)) = unat s + unat (16 + t)" by (simp add: unat_add_lem [THEN iffD1])
  with 1 show ?thesis by (simp add: hdr_def)
qed

lemma take_chunk_split_path:
  assumes p: "path m p (pre @ (a, c) # post) None"
    and t: "tiled (pre @ (a, c) # post)"
    and big: "unat sz + hdr + ALIGNMENT \<le> unat (size_c c)"
  shows "path (take_chunk m a c sz) p
           (pre @ (a, \<lparr>size_c = sz, inuse = True, next_c = Some (a + hdr + unat sz)\<rparr>)
                # (a + hdr + unat sz,
                   \<lparr>size_c = size_c c - sz - word_of_nat hdr, inuse = False, next_c = next_c c\<rparr>)
                # post) None"
proof -
  let ?n = "a + hdr + unat sz"
  let ?m = "take_chunk m a c sz"
  from p have pre: "path m p pre (Some a)" and a: "m a = Some c"
    and post: "path m (next_c c) post None"
    by (auto simp: path_append)
  have m': "?m = m(?n \<mapsto> \<lparr>size_c = size_c c - sz - word_of_nat hdr, inuse = False, next_c = next_c c\<rparr>,
                   a \<mapsto> \<lparr>size_c = sz, inuse = True, next_c = Some ?n\<rparr>)"
    using big by (simp add: take_chunk_def)
  have lo: "fst x \<noteq> a \<and> fst x \<noteq> ?n" if "x \<in> set pre" for x
    using tiled_earlier [OF t that] chunk_end_gt [of x] hdr_pos by simp
  from t have "tiled ((a, c) # post)" by (simp add: tiled_append)
  then have hi: "fst y \<noteq> a \<and> fst y \<noteq> ?n" if "y \<in> set post" for y
    using tiled_later [of "(a, c)" post y] that big
    by (auto simp: chunk_end_def ALIGNMENT_def)
  have "path ?m p pre (Some a)"
    using pre lo by (subst path_cong [where m = m]) (auto simp: m')
  moreover have "path ?m (next_c c) post None"
    using post hi by (subst path_cong [where m = m]) (auto simp: m')
  moreover have "?n \<noteq> a" using hdr_pos by simp
  ultimately show ?thesis
    by (auto simp: path_append m')
qed

lemma take_chunk_whole_path:
  assumes p: "path m p (pre @ (a, c) # post) None"
    and t: "tiled (pre @ (a, c) # post)"
    and small: "\<not> unat sz + hdr + ALIGNMENT \<le> unat (size_c c)"
  shows "path (take_chunk m a c sz) p (pre @ (a, c\<lparr>inuse := True\<rparr>) # post) None"
proof -
  let ?m = "take_chunk m a c sz"
  from p have pre: "path m p pre (Some a)" and a: "m a = Some c"
    and post: "path m (next_c c) post None"
    by (auto simp: path_append)
  have m': "?m = m(a \<mapsto> c\<lparr>inuse := True\<rparr>)"
    using small by (simp add: take_chunk_def)
  have lo: "fst x \<noteq> a" if "x \<in> set pre" for x
    using tiled_earlier [OF t that] chunk_end_gt [of x] hdr_pos by simp
  from t have "tiled ((a, c) # post)" by (simp add: tiled_append)
  then have hi: "fst y \<noteq> a" if "y \<in> set post" for y
    using tiled_later [of "(a, c)" post y] that hdr_pos
    by (auto simp: chunk_end_def)
  have "path ?m p pre (Some a)"
    using pre lo by (subst path_cong [where m = m]) (auto simp: m')
  moreover have "path ?m (next_c c) post None"
    using post hi by (subst path_cong [where m = m]) (auto simp: m')
  ultimately show ?thesis
    by (auto simp: path_append m')
qed

lemma split_tiled:
  assumes t: "tiled (pre @ (a, c) # post)"
    and big: "unat sz + hdr + ALIGNMENT \<le> unat (size_c c)"
  shows "tiled (pre @ (a, \<lparr>size_c = sz, inuse = True, next_c = Some (a + hdr + unat sz)\<rparr>)
                # (a + hdr + unat sz,
                   \<lparr>size_c = size_c c - sz - word_of_nat hdr, inuse = False, next_c = next_c c\<rparr>)
                # post)"
  using t split_size [OF big] big
  by (auto simp: tiled_append tiled_Cons chunk_end_def)

lemma split_span:
  assumes big: "unat sz + hdr + ALIGNMENT \<le> unat (size_c c)"
  shows "span (pre @ (a, \<lparr>size_c = sz, inuse = True, next_c = Some (a + hdr + unat sz)\<rparr>)
                # (a + hdr + unat sz,
                   \<lparr>size_c = size_c c - sz - word_of_nat hdr, inuse = False, next_c = next_c c\<rparr>)
                # post) = span (pre @ (a, c) # post)"
  using split_size [OF big] big
  by (simp add: span_def)

lemma whole_tiled:
  "tiled (pre @ (a, c) # post) \<Longrightarrow> tiled (pre @ (a, c\<lparr>inuse := True\<rparr>) # post)"
  by (auto simp: tiled_append tiled_Cons chunk_end_def)

lemma whole_span: "span (pre @ (a, c\<lparr>inuse := True\<rparr>) # post) = span (pre @ (a, c) # post)"
  by (simp add: span_def)

section \<open>The invariant\<close>

lemma heap_alloc_inv:
  assumes inv: "heap_inv heap m"
  shows "\<exists>m' p. heap_alloc heap m sz = Some (heap, m', p) \<and> heap_inv heap m'"
proof -
  from inv obtain cs where cs: "path m (start heap) cs None" and t: "tiled cs"
    and b: "span cs < 2 ^ 32 + hdr"
    by (auto simp: heap_inv_def chunks_path split: option.splits)
  show ?thesis
  proof (cases "\<exists>x\<in>set cs. fits (ALIGN sz) x")
    case False
    with cs have "alloc_walk m (ALIGN sz) (start heap) = Some (m, None)"
      by (intro alloc_walk_nofit) auto
    with inv show ?thesis by (simp add: heap_alloc_def)
  next
    case True
    from split_list_first_prop [OF True]
    obtain pre x post where split: "cs = pre @ x # post" and fit: "fits (ALIGN sz) x"
      and pre: "\<forall>y\<in>set pre. \<not> fits (ALIGN sz) y"
      by blast
    obtain a c where x: "x = (a, c)" by (cases x)
    from cs split x have "path m (start heap) pre (Some a)" "m a = Some c"
      by (auto simp: path_append)
    with pre fit x have w: "alloc_walk m (ALIGN sz) (start heap)
        = Some (take_chunk m a c (ALIGN sz), Some (a + hdr))"
      by (intro alloc_walk_fit) auto
    have "heap_inv heap (take_chunk m a c (ALIGN sz))"
    proof (cases "unat (ALIGN sz) + hdr + ALIGNMENT \<le> unat (size_c c)")
      case True
      from take_chunk_split_path [OF cs [unfolded split x] t [unfolded split x] True]
        split_tiled [OF t [unfolded split x] True] split_span [OF True, of pre a post] b
      show ?thesis
        unfolding heap_inv_def split x by (simp add: chunks_path [THEN iffD2])
    next
      case False
      from take_chunk_whole_path [OF cs [unfolded split x] t [unfolded split x] False]
        whole_tiled [OF t [unfolded split x]] whole_span [of pre a c post] b
      show ?thesis
        unfolding heap_inv_def split x by (simp add: chunks_path [THEN iffD2])
    qed
    with w show ?thesis by (simp add: heap_alloc_def)
  qed
qed

lemma heap_init_inv:
  assumes "heap_init heap0 m0 p sz = Some (heap, m)"
  shows "heap_inv heap m"
proof -
  from assms obtain a where p: "p = Some a"
    and h: "heap = heap0\<lparr>start := Some a, avail := sz - word_of_nat hdr\<rparr>"
    and m: "m = m0(a \<mapsto> \<lparr>size_c = sz - word_of_nat hdr, inuse = False, next_c = None\<rparr>)"
    by (auto simp: heap_init_def split: option.splits)
  let ?c = "\<lparr>size_c = sz - word_of_nat hdr, inuse = False, next_c = None\<rparr>"
  have "path m (start heap) [(a, ?c)] None" by (simp add: h m)
  then have "chunks m (start heap) = Some [(a, ?c)]" by (simp only: chunks_path)
  moreover have "unat (sz - word_of_nat hdr) < 2 ^ 32"
    using unsigned_less [of "sz - word_of_nat hdr :: 32 word"] by simp
  ultimately show ?thesis by (simp add: heap_inv_def span_def)
qed

lemma mark_free_path:
  "path m p cs q \<Longrightarrow> m b = Some c
   \<Longrightarrow> path (m(b \<mapsto> c\<lparr>inuse := False\<rparr>)) p (map (mark_free b) cs) q"
  by (induction cs arbitrary: p) (auto simp: mark_free_def)

lemma mark_free_fst [simp]: "fst (mark_free b x) = fst x"
  by (simp add: mark_free_def)

lemma mark_free_end [simp]: "chunk_end (mark_free b x) = chunk_end x"
  by (simp add: mark_free_def chunk_end_def)

lemma mark_free_tiled: "tiled (map (mark_free b) cs) = tiled cs"
  by (induction cs rule: tiled.induct) auto

lemma mark_free_span: "span (map (mark_free b) cs) = span cs"
  by (induction cs) (auto simp: span_def mark_free_def)

lemma coalesce_list_hd:
  "cs \<noteq> [] \<Longrightarrow> coalesce_list cs \<noteq> [] \<and> fst (hd (coalesce_list cs)) = fst (hd cs)"
  by (induction cs rule: coalesce_list.induct) auto

lemma span_Cons: "span (x # xs) = hdr + unat (size_c (snd x)) + span xs"
  by (simp add: span_def)

lemma coalesce_list_inv:
  "tiled cs \<Longrightarrow> span cs < 2 ^ 32 + hdr
   \<Longrightarrow> tiled (coalesce_list cs) \<and> span (coalesce_list cs) = span cs"
proof (induction cs rule: coalesce_list.induct)
  case 1
  then show ?case by simp
next
  case (2 x)
  then show ?case by simp
next
  case (3 x y zs)
  show ?case
  proof (cases "\<not> inuse (snd x) \<and> \<not> inuse (snd y)")
    case True
    from "3.prems" have ty: "fst y = chunk_end x" and tz: "tiled zs"
      and hz: "zs = [] \<or> fst (hd zs) = chunk_end y"
      by (auto simp: tiled_Cons)
    from "3.prems" have bz: "span zs < 2 ^ 32 + hdr"
      and sm: "unat (size_c (snd x)) + hdr + unat (size_c (snd y)) < 2 ^ 32"
      by (auto simp: span_Cons)
    from "3.IH"(1) [OF True tz bz] have ih: "tiled (coalesce_list zs)"
      "span (coalesce_list zs) = span zs" by auto
    have "coalesce_list zs = [] \<or> fst (hd (coalesce_list zs)) = chunk_end y"
      using hz coalesce_list_hd [of zs] by (cases "zs = []") auto
    with merge_size [OF sm] ty ih True show ?thesis
      by (auto simp: tiled_Cons span_Cons chunk_end_def)
  next
    case False
    from "3.prems" have ty: "fst y = chunk_end x" and tz: "tiled (y # zs)"
      and bz: "span (y # zs) < 2 ^ 32 + hdr"
      by (auto simp: span_Cons)
    from "3.IH"(2) [OF False tz bz] ty coalesce_list_hd [of "y # zs"] False show ?thesis
      by (auto simp: tiled_Cons span_Cons)
  qed
qed

lemma coalesce_path:
  "path m p cs None \<Longrightarrow> tiled cs
   \<Longrightarrow> \<exists>m'. coalesce m p = Some m' \<and> path m' p (coalesce_list cs) None
        \<and> (\<forall>b. b \<notin> fst ` set cs \<longrightarrow> m' b = m b)"
proof (induction cs arbitrary: m p rule: coalesce_list.induct)
  case 1
  then show ?case by (subst coalesce.simps) simp
next
  case (2 x)
  then have "coalesce m p = Some m"
    by (subst coalesce.simps, subst coalesce.simps) simp
  with 2 show ?case by simp
next
  case (3 x y zs)
  from "3.prems" have p: "p = Some (fst x)" and mx: "m (fst x) = Some (snd x)"
    and nx: "next_c (snd x) = Some (fst y)" and my: "m (fst y) = Some (snd y)"
    and rest: "path m (next_c (snd y)) zs None"
    and ty: "tiled (y # zs)"
    by auto
  have later: "fst x < fst z" if "z \<in> set (y # zs)" for z
    using tiled_later [OF "3.prems"(2) that] chunk_end_gt [of x] hdr_pos by simp
  then have later': "\<forall>z\<in>set (y # zs). fst z \<noteq> fst x"
    by fastforce
  show ?case
  proof (cases "\<not> inuse (snd x) \<and> \<not> inuse (snd y)")
    case True
    let ?c = "(snd x)\<lparr>size_c := size_c (snd x) + (word_of_nat hdr + size_c (snd y)),
                       next_c := next_c (snd y)\<rparr>"
    let ?m = "m(fst x \<mapsto> ?c)"
    have step: "coalesce m p = coalesce ?m (next_c (snd y))"
      using True p mx nx my by (subst coalesce.simps) simp
    have "path ?m (next_c (snd y)) zs None"
      using rest later' by (subst path_cong [where m = m]) auto
    moreover from ty have "tiled zs" by (simp add: tiled_Cons)
    ultimately obtain m' where m': "coalesce ?m (next_c (snd y)) = Some m'"
      "path m' (next_c (snd y)) (coalesce_list zs) None"
      "\<forall>b. b \<notin> fst ` set zs \<longrightarrow> m' b = ?m b"
      using "3.IH"(1) [OF True] by blast
    from later' have "fst x \<notin> fst ` set zs" by auto
    with m'(3) have "m' (fst x) = Some ?c" by simp
    with m' step True p show ?thesis by auto
  next
    case False
    have step: "coalesce m p = coalesce m (Some (fst y))"
      using False p mx nx my by (subst coalesce.simps) auto
    from "3.prems" have "path m (Some (fst y)) (y # zs) None" by auto
    with ty obtain m' where m': "coalesce m (Some (fst y)) = Some m'"
      "path m' (Some (fst y)) (coalesce_list (y # zs)) None"
      "\<forall>b. b \<notin> fst ` set (y # zs) \<longrightarrow> m' b = m b"
      using "3.IH"(2) [OF False] by blast
    from later' have "fst x \<notin> fst ` set (y # zs)" by (simp add: image_iff) metis
    with m'(3) mx have "m' (fst x) = Some (snd x)" by simp
    with m' step False p nx show ?thesis by auto
  qed
qed

lemma sum_avail_path:
  "path m p cs None
   \<Longrightarrow> sum_avail m p acc
       = Some (acc + (\<Sum>x\<leftarrow>filter (\<lambda>x. \<not> inuse (snd x)) cs. size_c (snd x)))"
proof (induction cs arbitrary: p acc)
  case Nil
  then show ?case by (subst sum_avail.simps) simp
next
  case (Cons x xs)
  from Cons.prems have "path m (next_c (snd x)) xs None" by simp
  from Cons.IH [OF this] Cons.prems show ?case
    by (subst sum_avail.simps) (simp add: add.assoc)
qed

lemma unat_sum_list:
  "(\<Sum>w\<leftarrow>ws. unat w) < 2 ^ 32 \<Longrightarrow> unat (sum_list ws :: 32 word) = (\<Sum>w\<leftarrow>ws. unat w)"
proof (induction ws)
  case Nil
  then show ?case by simp
next
  case (Cons w ws)
  then have ih: "unat (sum_list ws) = (\<Sum>w\<leftarrow>ws. unat w)" by simp
  with Cons.prems have "unat w + unat (sum_list ws) < 2 ^ LENGTH(32)" by simp
  then have "unat (w + sum_list ws) = unat w + unat (sum_list ws)"
    by (simp add: unat_add_lem [THEN iffD1])
  with ih show ?case by simp
qed

lemma free_total_span: "free_total cs + hdr * length cs \<le> span cs"
  by (induction cs) (auto simp: free_total_def span_def)

lemma free_total_bound: "span cs < 2 ^ 32 + hdr \<Longrightarrow> free_total cs < 2 ^ 32"
  using free_total_span [of cs] hdr_pos
  by (cases cs) (auto simp: free_total_def)

lemma unat_free_sum:
  assumes "span cs < 2 ^ 32 + hdr"
  shows "unat (\<Sum>x\<leftarrow>filter (\<lambda>x. \<not> inuse (snd x)) cs. size_c (snd x)) = free_total cs"
proof -
  from free_total_bound [OF assms]
  have "(\<Sum>w\<leftarrow>map (\<lambda>x. size_c (snd x)) (filter (\<lambda>x. \<not> inuse (snd x)) cs). unat w) < 2 ^ 32"
    by (simp add: free_total_def comp_def)
  from unat_sum_list [OF this] show ?thesis
    by (simp add: free_total_def comp_def)
qed

lemma heap_free_chain:
  assumes cs: "chunks m (start heap) = Some cs" and t: "tiled cs"
    and b: "span cs < 2 ^ 32 + hdr"
    and p: "hdr \<le> p" and c: "m (p - hdr) = Some c"
  shows "\<exists>heap' m'. heap_free heap m (Some p) = Some (heap', m')
          \<and> start heap' = start heap
          \<and> chunks m' (start heap) = Some (coalesce_list (map (mark_free (p - hdr)) cs))
          \<and> unat (avail heap') = free_total (coalesce_list (map (mark_free (p - hdr)) cs))"
proof -
  let ?m = "m(p - hdr \<mapsto> c\<lparr>inuse := False\<rparr>)"
  let ?cs = "map (mark_free (p - hdr)) cs"
  from cs have "path m (start heap) cs None" by (simp only: chunks_path)
  from mark_free_path [OF this c] have 1: "path ?m (start heap) ?cs None" .
  have 2: "tiled ?cs" "span ?cs < 2 ^ 32 + hdr"
    using t b by (simp_all add: mark_free_tiled mark_free_span)
  from coalesce_path [OF 1 2(1)] obtain m' where m': "coalesce ?m (start heap) = Some m'"
    "path m' (start heap) (coalesce_list ?cs) None" by blast
  from coalesce_list_inv [OF 2] have 3: "span (coalesce_list ?cs) < 2 ^ 32 + hdr"
    using 2(2) by simp
  from sum_avail_path [OF m'(2), of 0] unat_free_sum [OF 3]
  obtain s where s: "sum_avail m' (start heap) 0 = Some s"
    "unat s = free_total (coalesce_list ?cs)" by simp
  from p c m'(1) s(1) have "heap_free heap m (Some p) = Some (heap\<lparr>avail := s\<rparr>, m')"
    by (simp add: heap_free_def)
  with m'(2) s(2) show ?thesis
    by (simp add: chunks_path)
qed

lemma heap_free_inv:
  assumes inv: "heap_inv heap m" and f: "heap_free heap m ptr = Some (heap', m')"
  shows "heap_inv heap' m'"
proof (cases ptr)
  case None
  with f inv show ?thesis by (simp add: heap_free_def)
next
  case (Some p)
  with f obtain c where p: "hdr \<le> p" and c: "m (p - hdr) = Some c"
    by (auto simp: heap_free_def split: if_splits option.splits)
  from inv obtain cs where cs: "chunks m (start heap) = Some cs" and t: "tiled cs"
    and b: "span cs < 2 ^ 32 + hdr"
    by (auto simp: heap_inv_def split: option.splits)
  from heap_free_chain [OF cs t b p c] f Some
  have "start heap' = start heap"
    "chunks m' (start heap) = Some (coalesce_list (map (mark_free (p - hdr)) cs))"
    by auto
  moreover from coalesce_list_inv [of "map (mark_free (p - hdr)) cs"] t b
  have "tiled (coalesce_list (map (mark_free (p - hdr)) cs))"
    "span (coalesce_list (map (mark_free (p - hdr)) cs)) < 2 ^ 32 + hdr"
    by (simp_all add: mark_free_tiled mark_free_span)
  ultimately show ?thesis by (simp add: heap_inv_def)
qed

lemma reachable_inv: "reachable heap m \<Longrightarrow> heap_inv heap m"
proof (induction rule: reachable.induct)
  case (init sz heap0 m0 p heap m)
  from init(2) show ?case by (rule heap_init_inv)
next
  case (alloc heap m sz heap' m' p)
  from heap_alloc_inv [OF alloc.IH, of sz] alloc.hyps(2) show ?case by auto
next
  case (free heap m ptr heap' m')
  from heap_free_inv [OF free.IH free.hyps(3)] show ?case .
qed

lemma path_mem: "path m p cs q \<Longrightarrow> x \<in> set cs \<Longrightarrow> m (fst x) = Some (snd x)"
  by (induction cs arbitrary: p) auto

lemma chunk_ptr_header:
  assumes "chunk_ptr heap m p"
  shows "hdr \<le> p \<and> (\<exists>c. m (p - hdr) = Some c)"
proof -
  from assms obtain cs x where "chunks m (start heap) = Some cs" "x \<in> set cs"
    "fst x = p - hdr" and p: "hdr \<le> p"
    by (auto simp: chunk_ptr_def split: option.splits)
  then have "m (p - hdr) = Some (snd x)"
    using path_mem [of m "start heap" cs None x] by (simp add: chunks_path)
  with p show ?thesis by blast
qed

lemma heap_inv_tiling: "heap_inv heap m \<Longrightarrow> tiling heap m"
  by (auto simp: heap_inv_def tiling_def split: option.splits)


text \<open>A heap of 4096 bytes at address 4096 after \<^verbatim>\<open>heap_init\<close> and one
  \<^verbatim>\<open>heap_alloc\<close> of 128 bytes.\<close>

lemma one_block_reachable:
  "reachable \<lparr>start = Some 4096, avail = 4080\<rparr>
     (map_of [(4096, \<lparr>size_c = 128, inuse = True, next_c = Some 4240\<rparr>),
              (4240, \<lparr>size_c = 3936, inuse = False, next_c = None\<rparr>)])"
proof -
  let ?H = "\<lparr>start = Some 4096, avail = 4080\<rparr>"
  let ?M1 = "map_of [(4096 :: nat, \<lparr>size_c = 4080, inuse = False, next_c = None\<rparr>)]"
  let ?M = "map_of [(4096 :: nat, \<lparr>size_c = 128, inuse = True, next_c = Some 4240\<rparr>),
              (4240, \<lparr>size_c = 3936, inuse = False, next_c = None\<rparr>)]"
  have "heap_init \<lparr>start = None, avail = 0\<rparr> (map_of []) (Some 4096) 4096 = Some (?H, ?M1)"
    by (simp add: heap_init_def hdr_def)
  moreover have "hdr \<le> unat (4096 :: 32 word)" by (simp add: hdr_def)
  ultimately have 1: "reachable ?H ?M1" by (rule reachable.init [rotated])
  have "take_chunk ?M1 4096 \<lparr>size_c = 4080, inuse = False, next_c = None\<rparr> 128 = ?M"
    by (rule ext) (simp add: take_chunk_def hdr_def ALIGNMENT_def)
  moreover have "ALIGN 128 = 128" by (simp add: ALIGN_def)
  ultimately have "heap_alloc ?H ?M1 128 = Some (?H, ?M, Some 4112)"
    by (simp add: heap_alloc_def alloc_walk.simps hdr_def)
  with 1 show ?thesis by (rule reachable.alloc)
qed

lemma one_block_ptr:
  "chunk_ptr \<lparr>start = Some 4096, avail = 4080\<rparr>
     (map_of [(4096, \<lparr>size_c = 128, inuse = True, next_c = Some 4240\<rparr>),
              (4240, \<lparr>size_c = 3936, inuse = False, next_c = None\<rparr>)]) 4112"
proof -
  have "chunks (map_of [(4096, \<lparr>size_c = 128, inuse = True, next_c = Some 4240\<rparr>),
                        (4240, \<lparr>size_c = 3936, inuse = False, next_c = None\<rparr>)])
          (start \<lparr>start = Some 4096, avail = 4080\<rparr>)
        = Some [(4096, \<lparr>size_c = 128, inuse = True, next_c = Some 4240\<rparr>),
                (4240, \<lparr>size_c = 3936, inuse = False, next_c = None\<rparr>)]"
    by (simp add: chunks_path)
  then show ?thesis by (simp add: chunk_ptr_def hdr_def)
qed

lemma heap_alloc_total:
  assumes "chunks m (start heap) = Some cs"
  shows "\<exists>m' p. heap_alloc heap m sz = Some (heap, m', p)"
proof -
  from assms have cs: "path m (start heap) cs None" by (simp only: chunks_path)
  show ?thesis
  proof (cases "\<exists>x\<in>set cs. fits (ALIGN sz) x")
    case False
    with cs have "alloc_walk m (ALIGN sz) (start heap) = Some (m, None)"
      by (intro alloc_walk_nofit) auto
    then show ?thesis by (simp add: heap_alloc_def)
  next
    case True
    from split_list_first_prop [OF True]
    obtain pre x post where split: "cs = pre @ x # post" and fit: "fits (ALIGN sz) x"
      and pre: "\<forall>y\<in>set pre. \<not> fits (ALIGN sz) y"
      by blast
    from cs split have "path m (start heap) pre (Some (fst x))" "m (fst x) = Some (snd x)"
      by (auto simp: path_append)
    with pre fit have "alloc_walk m (ALIGN sz) (start heap)
        = Some (take_chunk m (fst x) (snd x) (ALIGN sz), Some (fst x + hdr))"
      by (intro alloc_walk_fit) auto
    then show ?thesis by (simp add: heap_alloc_def)
  qed
qed

text \<open>A heap of 4096 bytes at address 4096, as \<^verbatim>\<open>heap_init\<close> leaves it.\<close>

lemma fresh_heap_chunks:
  "chunks (map_of [(4096, \<lparr>size_c = 4080, inuse = False, next_c = None\<rparr>)])
          (start \<lparr>start = Some 4096, avail = 4080\<rparr>)
     = Some [(4096, \<lparr>size_c = 4080, inuse = False, next_c = None\<rparr>)]"
  by (simp add: chunks_path)

text \<open>\<^verbatim>\<open>heap_sizeof\<close> of a pointer that \<^verbatim>\<open>heap_alloc\<close> has just returned is at least the
  value of the macro \<^verbatim>\<open>ALIGN\<close>, which is the size rounded up to a multiple of 8 as long as
  the addition does not wrap.\<close>

lemma alloc_sizeof_ge_ALIGN:
  assumes "heap_alloc heap m n = Some (heap', m', Some p)"
  shows "\<exists>s. heap_sizeof m' (Some p) = Some s \<and> ALIGN n \<le> s
           \<and> (if unat n + 7 < 2 ^ 32 then unat (ALIGN n) = (unat n + 7) div 8 * 8
               else ALIGN n = 0)"
proof -
  from assms have "alloc_walk m (ALIGN n) (start heap) = Some (m', Some p)"
    by (auto simp: heap_alloc_def split: option.splits)
  from alloc_walk_result [OF this] obtain a c where p: "p = a + hdr" and a: "m a = Some c"
    and fit: "fits (ALIGN n) (a, c)" and m': "m' = take_chunk m a c (ALIGN n)"
    by auto
  have "\<exists>s. heap_sizeof m' (Some p) = Some s \<and> ALIGN n \<le> s"
    using fit by (simp add: heap_sizeof_def p m' take_chunk_def fits_def)
  moreover have "unat (ALIGN n) = (unat n + 7) div 8 * 8" if "unat n + 7 < 2 ^ 32"
    using ALIGN_unat [OF that] by (simp add: minus_mod_eq_div_mult)
  moreover have "ALIGN n = 0" if "\<not> unat n + 7 < 2 ^ 32"
    using that by (intro ALIGN_wrap) simp
  ultimately show ?thesis by auto
qed

lemma ALIGN_demo: "ALIGN 128 = 128" "ALIGN 256 = 256" "ALIGN 512 = 512" "ALIGN 4040 = 4040"
  by (simp_all add: ALIGN_def)

text \<open>A request above the free capacity fails and leaves the memory as it was, as long
  as \<^verbatim>\<open>ALIGN\<close> does not wrap.\<close>

lemma free_chunk_le_total:
  "x \<in> set cs \<Longrightarrow> \<not> inuse (snd x) \<Longrightarrow> unat (size_c (snd x)) \<le> free_total cs"
  by (induction cs) (auto simp: free_total_def)

lemma alloc_beyond_capacity_fails:
  assumes cs: "chunks m (start heap) = Some cs"
    and big: "free_total cs < unat sz"
    and nowrap: "unat sz + 7 < 2 ^ 32"
  shows "heap_alloc heap m sz = Some (heap, m, None)"
proof -
  from cs have p: "path m (start heap) cs None" by (simp only: chunks_path)
  have "\<not> fits (ALIGN sz) x" if "x \<in> set cs" for x
  proof
    assume f: "fits (ALIGN sz) x"
    then have "unat (ALIGN sz) \<le> unat (size_c (snd x))" "\<not> inuse (snd x)"
      by (simp_all add: fits_def word_le_nat_alt)
    moreover from ALIGN_ge [OF nowrap] have "unat sz \<le> unat (ALIGN sz)"
      by (simp add: word_le_nat_alt)
    ultimately show False using free_chunk_le_total [OF that] big by simp
  qed
  with p have "alloc_walk m (ALIGN sz) (start heap) = Some (m, None)"
    by (intro alloc_walk_nofit) auto
  then show ?thesis by (simp add: heap_alloc_def)
qed

section \<open>The claims\<close>

text \<open>
  C1. The tiling invariant holds throughout. \<^verbatim>\<open>heap_init\<close> returns for every start
  address other than \<^verbatim>\<open>NULL\<close> and every size of at least one header. Every heap that it
  produces, and every heap that calls of \<^verbatim>\<open>heap_alloc\<close> and \<^verbatim>\<open>heap_free\<close> produce from it, is
  tiled: the \<^verbatim>\<open>next\<close> link of each chunk but the last is the address of the byte after that
  chunk's header and payload. On such a heap \<^verbatim>\<open>heap_alloc\<close> returns for every size, and
  \<^verbatim>\<open>heap_free\<close> returns for \<^verbatim>\<open>NULL\<close> and for every pointer to a chunk of the chain, and the
  heap they leave is tiled again.
\<close>

theorem tiling_invariant:
  assumes "reachable heap m"
  shows "(hdr \<le> unat n
            \<longrightarrow> (\<exists>heap1 m1. heap_init heap0 m0 (Some a) n = Some (heap1, m1) \<and> tiling heap1 m1))
    \<and> tiling heap m
    \<and> (\<forall>sz. \<exists>m' p. heap_alloc heap m sz = Some (heap, m', p) \<and> tiling heap m')
    \<and> heap_free heap m None = Some (heap, m)
    \<and> (\<forall>p. chunk_ptr heap m p
          \<longrightarrow> (\<exists>heap' m'. heap_free heap m (Some p) = Some (heap', m') \<and> tiling heap' m'))"
proof -
  from assms have inv: "heap_inv heap m" by (rule reachable_inv)
  then obtain cs where cs: "chunks m (start heap) = Some cs" and t: "tiled cs"
    and b: "span cs < 2 ^ 32 + hdr"
    by (auto simp: heap_inv_def split: option.splits)
  have "\<exists>m' p. heap_alloc heap m sz = Some (heap, m', p) \<and> tiling heap m'" for sz
    using heap_alloc_inv [OF inv, of sz] by (blast intro: heap_inv_tiling)
  moreover have "\<exists>heap' m'. heap_free heap m (Some p) = Some (heap', m') \<and> tiling heap' m'"
    if "chunk_ptr heap m p" for p
  proof -
    from chunk_ptr_header [OF that] obtain c where "hdr \<le> p" "m (p - hdr) = Some c"
      by blast
    from heap_free_chain [OF cs t b this] obtain heap' m'
      where f: "heap_free heap m (Some p) = Some (heap', m')" by blast
    from heap_free_inv [OF inv f] f show ?thesis by (blast intro: heap_inv_tiling)
  qed
  moreover have "heap_free heap m None = Some (heap, m)" by (simp add: heap_free_def)
  moreover have "\<exists>heap1 m1. heap_init heap0 m0 (Some a) n = Some (heap1, m1) \<and> tiling heap1 m1"
  proof -
    obtain heap1 m1 where i: "heap_init heap0 m0 (Some a) n = Some (heap1, m1)"
      by (simp add: heap_init_def)
    from heap_init_inv [OF i] i show ?thesis by (blast intro: heap_inv_tiling)
  qed
  ultimately show ?thesis using heap_inv_tiling [OF inv] by blast
qed

theorem tiling_invariant_witness:
  "hdr \<le> unat (4096 :: 32 word)
   \<and> (\<exists>heap1 m1. heap_init \<lparr>start = None, avail = 0\<rparr> (map_of []) (Some 4096) 4096
                        = Some (heap1, m1)
                    \<and> tiling heap1 m1)
   \<and> reachable \<lparr>start = Some 4096, avail = 4080\<rparr>
     (map_of [(4096, \<lparr>size_c = 128, inuse = True, next_c = Some 4240\<rparr>),
              (4240, \<lparr>size_c = 3936, inuse = False, next_c = None\<rparr>)])
   \<and> tiling \<lparr>start = Some 4096, avail = 4080\<rparr>
     (map_of [(4096, \<lparr>size_c = 128, inuse = True, next_c = Some 4240\<rparr>),
              (4240, \<lparr>size_c = 3936, inuse = False, next_c = None\<rparr>)])
   \<and> chunk_ptr \<lparr>start = Some 4096, avail = 4080\<rparr>
     (map_of [(4096, \<lparr>size_c = 128, inuse = True, next_c = Some 4240\<rparr>),
              (4240, \<lparr>size_c = 3936, inuse = False, next_c = None\<rparr>)]) 4112
   \<and> (\<exists>heap' m'. heap_free \<lparr>start = Some 4096, avail = 4080\<rparr>
     (map_of [(4096, \<lparr>size_c = 128, inuse = True, next_c = Some 4240\<rparr>),
              (4240, \<lparr>size_c = 3936, inuse = False, next_c = None\<rparr>)]) (Some 4112) = Some (heap', m')
        \<and> tiling heap' m')"
proof -
  have 1: "hdr \<le> unat (4096 :: 32 word)" by (simp add: hdr_def)
  from tiling_invariant [OF one_block_reachable, where n = 4096
      and ?heap0.0 = "\<lparr>start = None, avail = 0\<rparr>" and ?m0.0 = "map_of []" and a = 4096]
    1 one_block_reachable one_block_ptr
  show ?thesis by blast
qed





text \<open>
  C4. After \<^verbatim>\<open>heap_free\<close> no two neighbours of the chain are both free. The code does not
  keep this: after a merge the loop moves on to the chunk behind the absorbed one, so when
  that chunk is free too it stays apart. With 4096 bytes at address 4096, blocks of 128
  and 256 bytes, and the first block freed, no two neighbours are free; freeing the
  second block leaves the free chunks at 4096 and 4512 side by side.
\<close>

theorem free_leaves_adjacent_free_chunks:
  "do {
     (heap, m) \<leftarrow> heap_init \<lparr>start = None, avail = 0\<rparr> (\<lambda>_. None) (Some 4096) 4096;
     (heap, m, ptr1) \<leftarrow> heap_alloc heap m 128;
     (heap, m, ptr2) \<leftarrow> heap_alloc heap m 256;
     (heap, m) \<leftarrow> heap_free heap m ptr1;
     before \<leftarrow> chunks m (start heap);
     (heap, m) \<leftarrow> heap_free heap m ptr2;
     after \<leftarrow> chunks m (start heap);
     Some (ptr1, ptr2,
           map (\<lambda>(a, c). (a, size_c c, inuse c)) before, adjacent_free before,
           map (\<lambda>(a, c). (a, size_c c, inuse c)) after, adjacent_free after)
   } = Some (Some 4112, Some 4256,
             [(4096, 128, False), (4240, 256, True), (4512, 3664, False)], False,
             [(4096, 400, False), (4512, 3664, False)], True)"
  by (simp add: heap_init_def heap_alloc_def heap_free_def alloc_walk.simps coalesce.simps
      sum_avail.simps chunks.simps take_chunk_def hdr_def ALIGNMENT_def ALIGN_demo)

text \<open>
  C5. After \<^verbatim>\<open>heap_free\<close>, \<^verbatim>\<open>heap->avail\<close> is the sum of the payload sizes of the free
  chunks of the chain. This fails for \<^verbatim>\<open>heap_free(heap, NULL)\<close>, which returns before the
  sum is taken: after \<^verbatim>\<open>heap_init\<close> with 4096 bytes and \<^verbatim>\<open>heap_alloc\<close> of 128 bytes,
  \<^verbatim>\<open>avail\<close> is still 4080 while 3936 bytes are free, and freeing \<^verbatim>\<open>NULL\<close> leaves it so.
\<close>

theorem free_null_leaves_avail_stale:
  "reachable \<lparr>start = Some 4096, avail = 4080\<rparr>
     (map_of [(4096, \<lparr>size_c = 128, inuse = True, next_c = Some 4240\<rparr>),
              (4240, \<lparr>size_c = 3936, inuse = False, next_c = None\<rparr>)])
   \<and> heap_free \<lparr>start = Some 4096, avail = 4080\<rparr>
        (map_of [(4096, \<lparr>size_c = 128, inuse = True, next_c = Some 4240\<rparr>),
                 (4240, \<lparr>size_c = 3936, inuse = False, next_c = None\<rparr>)]) None
      = Some (\<lparr>start = Some 4096, avail = 4080\<rparr>,
              map_of [(4096, \<lparr>size_c = 128, inuse = True, next_c = Some 4240\<rparr>),
                      (4240, \<lparr>size_c = 3936, inuse = False, next_c = None\<rparr>)])
   \<and> chunks (map_of [(4096, \<lparr>size_c = 128, inuse = True, next_c = Some 4240\<rparr>),
                      (4240, \<lparr>size_c = 3936, inuse = False, next_c = None\<rparr>)])
            (start \<lparr>start = Some 4096, avail = 4080\<rparr>)
      = Some [(4096, \<lparr>size_c = 128, inuse = True, next_c = Some 4240\<rparr>),
              (4240, \<lparr>size_c = 3936, inuse = False, next_c = None\<rparr>)]
   \<and> unat (avail \<lparr>start = Some 4096, avail = 4080\<rparr>) = 4080
   \<and> free_total [(4096, \<lparr>size_c = 128, inuse = True, next_c = Some 4240\<rparr>),
                  (4240, \<lparr>size_c = 3936, inuse = False, next_c = None\<rparr>)] = 3936
   \<and> unat (avail \<lparr>start = Some 4096, avail = 4080\<rparr>)
       \<noteq> free_total [(4096, \<lparr>size_c = 128, inuse = True, next_c = Some 4240\<rparr>),
                       (4240, \<lparr>size_c = 3936, inuse = False, next_c = None\<rparr>)]"
  using one_block_reachable
  by (simp add: heap_free_def chunks_path free_total_def)

text \<open>
  C5, amended. On a heap that \<^verbatim>\<open>heap_init\<close>, \<^verbatim>\<open>heap_alloc\<close> and \<^verbatim>\<open>heap_free\<close> have
  produced, \<^verbatim>\<open>heap_free\<close> of a pointer to a chunk of the chain returns, and leaves in
  \<^verbatim>\<open>heap->avail\<close> the exact sum, with no wrap-around, of the payload sizes of the free
  chunks of the chain.
\<close>

theorem free_recomputes_avail:
  assumes "reachable heap m" and "chunk_ptr heap m p"
  shows "\<exists>heap' m' cs. heap_free heap m (Some p) = Some (heap', m')
           \<and> chunks m' (start heap') = Some cs
           \<and> unat (avail heap') = free_total cs"
proof -
  from assms(1) have "heap_inv heap m" by (rule reachable_inv)
  then obtain cs where cs: "chunks m (start heap) = Some cs" "tiled cs" "span cs < 2 ^ 32 + hdr"
    by (auto simp: heap_inv_def split: option.splits)
  from chunk_ptr_header [OF assms(2)] obtain c where "hdr \<le> p" "m (p - hdr) = Some c"
    by blast
  from heap_free_chain [OF cs this] show ?thesis by auto
qed

theorem free_recomputes_avail_witness:
  "reachable \<lparr>start = Some 4096, avail = 4080\<rparr>
     (map_of [(4096, \<lparr>size_c = 128, inuse = True, next_c = Some 4240\<rparr>),
              (4240, \<lparr>size_c = 3936, inuse = False, next_c = None\<rparr>)])
   \<and> chunk_ptr \<lparr>start = Some 4096, avail = 4080\<rparr>
     (map_of [(4096, \<lparr>size_c = 128, inuse = True, next_c = Some 4240\<rparr>),
              (4240, \<lparr>size_c = 3936, inuse = False, next_c = None\<rparr>)]) 4112
   \<and> (\<exists>heap' m' cs.
         heap_free \<lparr>start = Some 4096, avail = 4080\<rparr>
           (map_of [(4096, \<lparr>size_c = 128, inuse = True, next_c = Some 4240\<rparr>),
              (4240, \<lparr>size_c = 3936, inuse = False, next_c = None\<rparr>)]) (Some 4112)
           = Some (heap', m')
         \<and> chunks m' (start heap') = Some cs
         \<and> unat (avail heap') = free_total cs)"
  using free_recomputes_avail [OF one_block_reachable one_block_ptr]
    one_block_reachable one_block_ptr
  by blast

text \<open>
  C6. The scenario of \<^verbatim>\<open>main\<close>: in an arena of 4096 bytes the blocks of 128, 256 and 512
  bytes are allocated at increasing addresses that do not overlap. Freed in the order of
  \<^verbatim>\<open>main\<close>, first to last, they leave two free chunks of 928 and 3136 bytes, and a request
  of 4040 bytes, 4096 less three header widths less 8, fails. Of the six orders only the
  last, the blocks freed last to first, leaves one chunk of 4080 bytes and lets the same
  request succeed.
\<close>

theorem demo_frees_block_large_alloc:
  "demo_allocs 4096 \<bind> (\<lambda>(heap, m, ptr1, ptr2, ptr3). Some (ptr1, ptr2, ptr3, heap_info heap m))
     = Some (Some 4112, Some 4256, Some 4528,
             Some (4080, [(4096, 128, True), (4240, 256, True), (4512, 512, True),
                          (5040, 3136, False)]))
   \<and> do {
       (heap, m, ptr1, ptr2, ptr3) \<leftarrow> demo_allocs 4096;
       (heap, m) \<leftarrow> heap_free heap m ptr1;
       (heap, m) \<leftarrow> heap_free heap m ptr2;
       (heap, m) \<leftarrow> heap_free heap m ptr3;
       info \<leftarrow> heap_info heap m;
       (heap, m, p) \<leftarrow> heap_alloc heap m 4040;
       Some (info, p)
     } = Some ((4064, [(4096, 928, False), (5040, 3136, False)]), None)
   \<and> do {
       (heap, m, ptr1, ptr2, ptr3) \<leftarrow> demo_allocs 4096;
       (heap, m) \<leftarrow> heap_free heap m ptr1;
       (heap, m) \<leftarrow> heap_free heap m ptr3;
       (heap, m) \<leftarrow> heap_free heap m ptr2;
       info \<leftarrow> heap_info heap m;
       (heap, m, p) \<leftarrow> heap_alloc heap m 4040;
       Some (info, p)
     } = Some ((4064, [(4096, 400, False), (4512, 3664, False)]), None)
   \<and> do {
       (heap, m, ptr1, ptr2, ptr3) \<leftarrow> demo_allocs 4096;
       (heap, m) \<leftarrow> heap_free heap m ptr2;
       (heap, m) \<leftarrow> heap_free heap m ptr1;
       (heap, m) \<leftarrow> heap_free heap m ptr3;
       info \<leftarrow> heap_info heap m;
       (heap, m, p) \<leftarrow> heap_alloc heap m 4040;
       Some (info, p)
     } = Some ((4064, [(4096, 928, False), (5040, 3136, False)]), None)
   \<and> do {
       (heap, m, ptr1, ptr2, ptr3) \<leftarrow> demo_allocs 4096;
       (heap, m) \<leftarrow> heap_free heap m ptr2;
       (heap, m) \<leftarrow> heap_free heap m ptr3;
       (heap, m) \<leftarrow> heap_free heap m ptr1;
       info \<leftarrow> heap_info heap m;
       (heap, m, p) \<leftarrow> heap_alloc heap m 4040;
       Some (info, p)
     } = Some ((4064, [(4096, 928, False), (5040, 3136, False)]), None)
   \<and> do {
       (heap, m, ptr1, ptr2, ptr3) \<leftarrow> demo_allocs 4096;
       (heap, m) \<leftarrow> heap_free heap m ptr3;
       (heap, m) \<leftarrow> heap_free heap m ptr1;
       (heap, m) \<leftarrow> heap_free heap m ptr2;
       info \<leftarrow> heap_info heap m;
       (heap, m, p) \<leftarrow> heap_alloc heap m 4040;
       Some (info, p)
     } = Some ((4064, [(4096, 400, False), (4512, 3664, False)]), None)
   \<and> do {
       (heap, m, ptr1, ptr2, ptr3) \<leftarrow> demo_allocs 4096;
       (heap, m) \<leftarrow> heap_free heap m ptr3;
       (heap, m) \<leftarrow> heap_free heap m ptr2;
       (heap, m) \<leftarrow> heap_free heap m ptr1;
       info \<leftarrow> heap_info heap m;
       (heap, m, p) \<leftarrow> heap_alloc heap m 4040;
       Some (info, p)
     } = Some ((4080, [(4096, 4080, False)]), Some 4112)"
  by (simp add: demo_allocs_def heap_init_def heap_alloc_def heap_free_def heap_info_def
      alloc_walk.simps coalesce.simps sum_avail.simps chunks.simps take_chunk_def hdr_def
      ALIGNMENT_def ALIGN_demo)

text \<open>
  C7. A request above the free capacity returns \<^verbatim>\<open>NULL\<close> and leaves the chain as it was.
  The code does not keep this for sizes above \<open>2 ^ 32 - 8\<close>: on a fresh heap with 4080 free
  bytes a request of \<^verbatim>\<open>0xFFFFFFFF\<close> bytes returns the address 4112 and splits the chunk.
\<close>

theorem alloc_beyond_capacity_succeeds:
  "do {
     (heap, m) \<leftarrow> heap_init \<lparr>start = None, avail = 0\<rparr> (\<lambda>_. None) (Some 4096) 4096;
     before \<leftarrow> chunks m (start heap);
     (heap, m, p) \<leftarrow> heap_alloc heap m 0xFFFFFFFF;
     after \<leftarrow> chunks m (start heap);
     Some (free_total before, map (\<lambda>(a, c). (a, size_c c, inuse c)) before,
           p, map (\<lambda>(a, c). (a, size_c c, inuse c)) after)
   } = Some (4080, [(4096, 4080, False)],
             Some 4112, [(4096, 0, True), (4112, 4064, False)])"
  by (simp add: heap_init_def heap_alloc_def alloc_walk.simps chunks.simps take_chunk_def
      hdr_def ALIGNMENT_def ALIGN_def free_total_def)

text \<open>
  C8. Round trip: when \<^verbatim>\<open>heap_alloc(heap, n)\<close> returns a pointer other than \<^verbatim>\<open>NULL\<close>,
  \<^verbatim>\<open>heap_sizeof\<close> of that pointer is at least \<open>n\<close> rounded up to a multiple of 8. The code
  does not keep this for sizes above \<open>2 ^ 32 - 8\<close>: on a fresh heap of 4096 bytes a request
  of \<^verbatim>\<open>0xFFFFFFFF\<close> bytes, which rounds up to 4294967296, returns the address 4112, and
  \<^verbatim>\<open>heap_sizeof\<close> of it is 0, the value to which \<^verbatim>\<open>ALIGN\<close> has wrapped.
\<close>

theorem alloc_sizeof_below_request:
  "do {
     (heap, m) \<leftarrow> heap_init \<lparr>start = None, avail = 0\<rparr> (\<lambda>_. None) (Some 4096) 4096;
     (heap, m, p) \<leftarrow> heap_alloc heap m 0xFFFFFFFF;
     s \<leftarrow> heap_sizeof m p;
     Some (p, unat s, unat (ALIGN 0xFFFFFFFF),
           (unat (0xFFFFFFFF :: 32 word) + 7) div 8 * 8)
   } = Some (Some 4112, 0, 0, 4294967296)"
  by (simp add: heap_init_def heap_alloc_def heap_sizeof_def alloc_walk.simps take_chunk_def
      hdr_def ALIGNMENT_def ALIGN_def)

text \<open>
  C9. \<^verbatim>\<open>heap_alloc\<close> leaves \<^verbatim>\<open>heap->avail\<close> as it was, whatever it returns; and on every
  heap whose chain ends it does return. The witness runs a request that splits, one that
  takes a chunk whole and one that fails.
\<close>

theorem alloc_keeps_avail:
  "(\<forall>heap' m' p. heap_alloc heap m sz = Some (heap', m', p) \<longrightarrow> avail heap' = avail heap)
   \<and> (\<forall>cs. chunks m (start heap) = Some cs
          \<longrightarrow> (\<exists>heap' m' p. heap_alloc heap m sz = Some (heap', m', p)))"
proof -
  have "avail heap' = avail heap" if "heap_alloc heap m sz = Some (heap', m', p)" for heap' m' p
    using that by (auto simp: heap_alloc_def split: option.splits)
  moreover have "\<exists>heap' m' p. heap_alloc heap m sz = Some (heap', m', p)"
    if "chunks m (start heap) = Some cs" for cs
    using heap_alloc_total [OF that, of sz] by blast
  ultimately show ?thesis by blast
qed

theorem alloc_keeps_avail_witness:
  "(\<exists>heap' m'. heap_alloc \<lparr>start = Some 4096, avail = 4080\<rparr>
        (map_of [(4096, \<lparr>size_c = 4080, inuse = False, next_c = None\<rparr>)]) 100
        = Some (heap', m', Some 4112)
      \<and> chunks m' (Some 4096)
        = Some [(4096, \<lparr>size_c = 104, inuse = True, next_c = Some 4216\<rparr>),
                (4216, \<lparr>size_c = 3960, inuse = False, next_c = None\<rparr>)]
      \<and> avail heap' = 4080)
   \<and> (\<exists>heap' m'. heap_alloc \<lparr>start = Some 4096, avail = 4080\<rparr>
        (map_of [(4096, \<lparr>size_c = 4080, inuse = False, next_c = None\<rparr>)]) 4070
        = Some (heap', m', Some 4112)
      \<and> chunks m' (Some 4096) = Some [(4096, \<lparr>size_c = 4080, inuse = True, next_c = None\<rparr>)]
      \<and> avail heap' = 4080)
   \<and> (\<exists>heap' m'. heap_alloc \<lparr>start = Some 4096, avail = 4080\<rparr>
        (map_of [(4096, \<lparr>size_c = 4080, inuse = False, next_c = None\<rparr>)]) 5000
        = Some (heap', m', None)
      \<and> avail heap' = 4080)"
proof -
  let ?H = "\<lparr>start = Some 4096, avail = 4080\<rparr>"
  let ?M = "map_of [(4096 :: nat, \<lparr>size_c = 4080, inuse = False, next_c = None\<rparr>)]"
  have A: "ALIGN 100 = 104" "ALIGN 4070 = 4072" "ALIGN 5000 = 5000" by (simp_all add: ALIGN_def)
  have 1: "\<exists>m'. heap_alloc ?H ?M 100 = Some (?H, m', Some 4112)
      \<and> chunks m' (Some 4096)
        = Some [(4096, \<lparr>size_c = 104, inuse = True, next_c = Some 4216\<rparr>),
                (4216, \<lparr>size_c = 3960, inuse = False, next_c = None\<rparr>)]"
    by (simp add: heap_alloc_def alloc_walk.simps A take_chunk_def hdr_def ALIGNMENT_def
        chunks_path)
  have 2: "\<exists>m'. heap_alloc ?H ?M 4070 = Some (?H, m', Some 4112)
      \<and> chunks m' (Some 4096) = Some [(4096, \<lparr>size_c = 4080, inuse = True, next_c = None\<rparr>)]"
    by (simp add: heap_alloc_def alloc_walk.simps A take_chunk_def hdr_def ALIGNMENT_def
        chunks_path)
  have 3: "heap_alloc ?H ?M 5000 = Some (?H, ?M, None)"
    by (simp add: heap_alloc_def alloc_walk.simps A)
  from alloc_keeps_avail [of ?H ?M 100] alloc_keeps_avail [of ?H ?M 4070]
    alloc_keeps_avail [of ?H ?M 5000] 1 2 3
  show ?thesis by (metis heapinfo_t.select_convs(2))
qed

text \<open>
  C10. For a size above \<open>2 ^ 32 - 8\<close>, such as \<^verbatim>\<open>0xFFFFFFFF\<close>, \<^verbatim>\<open>ALIGN(size)\<close> wraps to 0.
  On a heap whose chain holds a free chunk, \<^verbatim>\<open>heap_alloc\<close> with that size then returns a
  pointer other than \<^verbatim>\<open>NULL\<close>, to a chunk whose payload is below one header width plus
  one alignment unit, far below the size asked for.
\<close>

theorem alloc_size_wraps:
  assumes big: "2 ^ 32 - 8 < unat sz"
    and cs: "chunks m (start heap) = Some cs"
    and free: "\<exists>x\<in>set cs. \<not> inuse (snd x)"
  shows "ALIGN sz = 0
    \<and> (\<exists>m' p s. heap_alloc heap m sz = Some (heap, m', Some p)
          \<and> heap_sizeof m' (Some p) = Some s
          \<and> unat s < hdr + ALIGNMENT \<and> unat s < unat sz)"
proof -
  from big have A: "ALIGN sz = 0" by (rule ALIGN_wrap)
  from cs have p: "path m (start heap) cs None" by (simp only: chunks_path)
  from split_list_first_prop [OF free]
  obtain pre x post where split: "cs = pre @ x # post" and fx: "\<not> inuse (snd x)"
    and pre: "\<forall>y\<in>set pre. inuse (snd y)"
    by blast
  let ?a = "fst x" and ?c = "snd x"
  from p split have "path m (start heap) pre (Some ?a)" "m ?a = Some ?c"
    by (auto simp: path_append)
  moreover from pre have "\<forall>y\<in>set pre. \<not> fits 0 y" by (simp add: fits_def)
  moreover from fx have "fits 0 (?a, ?c)" by (simp add: fits_def)
  ultimately have "alloc_walk m 0 (start heap) = Some (take_chunk m ?a ?c 0, Some (?a + hdr))"
    by (rule alloc_walk_fit)
  then have al: "heap_alloc heap m sz = Some (heap, take_chunk m ?a ?c 0, Some (?a + hdr))"
    by (simp add: heap_alloc_def A)
  have "\<exists>s. heap_sizeof (take_chunk m ?a ?c 0) (Some (?a + hdr)) = Some s
          \<and> unat s < hdr + ALIGNMENT"
    by (simp add: heap_sizeof_def take_chunk_def hdr_def ALIGNMENT_def)
  moreover have "hdr + ALIGNMENT \<le> unat sz"
    using big by (simp add: hdr_def ALIGNMENT_def)
  ultimately show ?thesis using A al by fastforce
qed

theorem alloc_size_wraps_witness:
  "2 ^ 32 - 8 < unat (0xFFFFFFFF :: 32 word)
   \<and> ALIGN 0xFFFFFFFF = 0
   \<and> (\<exists>m' p s. heap_alloc \<lparr>start = Some 4096, avail = 4080\<rparr>
          (map_of [(4096, \<lparr>size_c = 4080, inuse = False, next_c = None\<rparr>)]) 0xFFFFFFFF
          = Some (\<lparr>start = Some 4096, avail = 4080\<rparr>, m', Some p)
        \<and> heap_sizeof m' (Some p) = Some s
        \<and> unat s < hdr + ALIGNMENT \<and> unat s < unat (0xFFFFFFFF :: 32 word))"
proof -
  have 1: "2 ^ 32 - 8 < unat (0xFFFFFFFF :: 32 word)" by simp
  have 2: "\<exists>x\<in>set [(4096 :: nat, \<lparr>size_c = 4080, inuse = False, next_c = None\<rparr>)].
             \<not> inuse (snd x)"
    by simp
  from alloc_size_wraps [OF 1 fresh_heap_chunks 2] 1 show ?thesis by blast
qed

end
